theory Spec2Isabelle
  imports Main "HOL-Library.Word"
begin

section \<open>Shared Python primitives\<close>

text \<open>
  Exceptions of the Python source are values. Every public operation of the engine wraps
  its body in \<^verbatim>\<open>try ... except Exception\<close> and turns an exception into the
  pair \<^verbatim>\<open>(False, message)\<close>; the model keeps the exception in place of the message.
\<close>

datatype py_error = ValueError | ZeroDivisionError | FileError | SaveError

type_synonym py_result = "bool \<times> py_error option"

text \<open>
  \<^verbatim>\<open>range(i, stop, step)\<close> for a positive step. Python raises \<^verbatim>\<open>ValueError\<close>
  for a zero step, which \<open>py_range\<close> writes out.
\<close>

function range_step :: "nat \<Rightarrow> nat \<Rightarrow> nat \<Rightarrow> nat list" where
  "range_step i stop step =
     (if step = 0 \<or> stop \<le> i then [] else i # range_step (i + step) stop step)"
  by pat_completeness auto
termination
  by (relation "measure (\<lambda>(i, stop, step). stop - i)") auto

declare range_step.simps [simp del]

definition py_range :: "nat \<Rightarrow> nat \<Rightarrow> nat \<Rightarrow> py_error + nat list" where
  "py_range i stop step = (if step = 0 then Inl ValueError else Inr (range_step i stop step))"

section \<open>Page extraction: chunks of page indices (image_processor.pdf_to_images)\<close>

text \<open>
  One element of \<^verbatim>\<open>chunks\<close>: the tuple
  \<^verbatim>\<open>(input_pdf, output_dir, output_format, dpi, page_indices)\<close>.
\<close>

record chunk =
  input_pdf :: string
  output_dir :: string
  output_format :: string
  dpi :: nat
  page_indices :: "nat list"

text \<open>\<^verbatim>\<open>num_cores = os.cpu_count() or 4\<close>: \<^verbatim>\<open>None\<close> and \<^verbatim>\<open>0\<close> are both falsy.\<close>

definition num_cores :: "nat option \<Rightarrow> nat" where
  "num_cores cpu_count = (case cpu_count of None \<Rightarrow> 4 | Some n \<Rightarrow> if n = 0 then 4 else n)"

text \<open>\<^verbatim>\<open>chunk_size = max(1, page_count // num_cores)\<close>\<close>

definition chunk_size :: "nat \<Rightarrow> nat option \<Rightarrow> nat" where
  "chunk_size page_count cpu_count = max 1 (page_count div num_cores cpu_count)"

text \<open>
  The loop \<^verbatim>\<open>for i in range(0, page_count, chunk_size)\<close> appending
  \<^verbatim>\<open>list(range(i, min(i + chunk_size, page_count)))\<close>.
\<close>

definition build_chunks ::
  "string \<Rightarrow> string \<Rightarrow> string \<Rightarrow> nat \<Rightarrow> nat \<Rightarrow> nat \<Rightarrow> py_error + chunk list" where
  "build_chunks pdf dir fmt d page_count csize =
     (case py_range 0 page_count csize of
        Inl e \<Rightarrow> Inl e
      | Inr starts \<Rightarrow>
          Inr (map (\<lambda>i. \<lparr>input_pdf = pdf, output_dir = dir, output_format = fmt, dpi = d,
                          page_indices = [i ..< min (i + csize) page_count]\<rparr>) starts))"

definition pdf_to_images_chunks ::
  "string \<Rightarrow> string \<Rightarrow> string \<Rightarrow> nat \<Rightarrow> nat option \<Rightarrow> nat \<Rightarrow> py_error + chunk list" where
  "pdf_to_images_chunks pdf dir fmt d cpu_count page_count =
     build_chunks pdf dir fmt d page_count (chunk_size page_count cpu_count)"

section \<open>Resizing an image to a byte budget (image_processor.resize_image)\<close>

text \<open>
  \<^verbatim>\<open>str.upper()\<close> on the ASCII letters, which is all a format name such as
  \<^verbatim>\<open>'png'\<close> or \<^verbatim>\<open>'JPEG'\<close> needs.
\<close>

definition upper_char :: "char \<Rightarrow> char" where
  "upper_char c =
     (case map_of (zip ''abcdefghijklmnopqrstuvwxyz'' ''ABCDEFGHIJKLMNOPQRSTUVWXYZ'') c of
        None \<Rightarrow> c | Some u \<Rightarrow> u)"

definition upper :: "string \<Rightarrow> string" where
  "upper s = map upper_char s"

text \<open>
  What the function sees of the outside world. The encoders are Pillow's; \<open>jpeg_bytes q\<close>
  is the number of bytes \<^verbatim>\<open>img.save(..., format='JPEG', quality=q, optimize=True)\<close>
  produces for the image as prepared by the first part of the function (transparency
  flattened, mode converted, resized to \<^verbatim>\<open>dimensions\<close> when given). The same call on
  the same image gives the same bytes, so one function serves the in-memory probes and the
  final write.
\<close>

record image_env =
  input_readable :: bool
  jpeg_bytes :: "int \<Rightarrow> nat"
  png_bytes :: nat
  plain_bytes :: "string \<Rightarrow> nat"
  output_writable :: bool

text \<open>Every \<^verbatim>\<open>img.save\<close> call, in call order.\<close>

datatype save_call =
    BufferSave int
  | WriteJPEG int
  | WritePNG nat
  | WritePlain string int

datatype image_warning = PNGLimitReached | LowestQualityTooBig

text \<open>The local variables of the JPEG search, and the qualities probed so far.\<close>

record search =
  quality_low :: int
  quality_high :: int
  best_quality :: int
  found_solution :: bool
  probes :: "int list"

text \<open>One pass through the body of \<^verbatim>\<open>for attempt in range(max_iterations)\<close>,
  up to the \<^verbatim>\<open>break\<close> test.\<close>

definition search_body :: "(int \<Rightarrow> nat) \<Rightarrow> int \<Rightarrow> search \<Rightarrow> search" where
  "search_body enc target_bytes s =
     (let quality = (quality_low s + quality_high s) div 2;
          current_size = int (enc quality);
          s1 = s\<lparr>probes := probes s @ [quality]\<rparr>
      in if current_size \<le> target_bytes
         then s1\<lparr>best_quality := quality, quality_low := quality + 1, found_solution := True\<rparr>
         else s1\<lparr>quality_high := quality - 1\<rparr>)"

fun search_loop :: "(int \<Rightarrow> nat) \<Rightarrow> int \<Rightarrow> nat \<Rightarrow> search \<Rightarrow> search" where
  "search_loop enc target_bytes 0 s = s"
| "search_loop enc target_bytes (Suc n) s =
     (let s' = search_body enc target_bytes s
      in if quality_high s' < quality_low s' then s'
         else search_loop enc target_bytes n s')"

text \<open>
  Lines 84 to 112: the probe at quality 95 and, when it does not fit, the loop.
  \<^verbatim>\<open>range(max_iterations)\<close> is empty for a negative bound, hence \<open>nat\<close>.
\<close>

definition jpeg_search :: "(int \<Rightarrow> nat) \<Rightarrow> int \<Rightarrow> int \<Rightarrow> search" where
  "jpeg_search enc target_bytes max_iterations =
     (let s0 = \<lparr>quality_low = 5, quality_high = 95, best_quality = 5,
                found_solution = False, probes = [95]\<rparr>
      in if int (enc 95) \<le> target_bytes
         then s0\<lparr>best_quality := 95, found_solution := True\<rparr>
         else search_loop enc target_bytes (nat max_iterations) s0)"

record image_outcome =
  result :: py_result
  saves :: "save_call list"
  warnings :: "image_warning list"
  written_quality :: "int option"
  output_bytes :: "nat option"

definition image_failed :: "py_error \<Rightarrow> save_call list \<Rightarrow> image_warning list \<Rightarrow> image_outcome" where
  "image_failed e sv ws =
     \<lparr>result = (False, Some e), saves = sv, warnings = ws, written_quality = None,
      output_bytes = None\<rparr>"

text \<open>Lines 74 to 80: PNG output is written once, at the strongest compression level.\<close>

definition png_branch :: "image_env \<Rightarrow> int \<Rightarrow> image_outcome" where
  "png_branch env target_bytes =
     (if \<not> output_writable env then image_failed SaveError [WritePNG 9] []
      else let final_size = png_bytes env in
        \<lparr>result = (True, None), saves = [WritePNG 9],
         warnings = (if int final_size > target_bytes then [PNGLimitReached] else []),
         written_quality = None, output_bytes = Some final_size\<rparr>)"

text \<open>Lines 82 to 122: the search, then the write at the quality it settled on.\<close>

definition jpeg_branch :: "image_env \<Rightarrow> int \<Rightarrow> int \<Rightarrow> image_outcome" where
  "jpeg_branch env target_bytes max_iterations =
     (let s = jpeg_search (jpeg_bytes env) target_bytes max_iterations;
          best = (if \<not> found_solution s then 5 else best_quality s);
          ws = (if \<not> found_solution s then [LowestQualityTooBig] else []);
          sv = map BufferSave (probes s) @ [WriteJPEG best]
      in if \<not> output_writable env then image_failed SaveError sv ws
         else \<lparr>result = (True, None), saves = sv, warnings = ws,
               written_quality = Some best,
               output_bytes = Some (jpeg_bytes env best)\<rparr>)"

text \<open>Lines 127 to 131: no target size, one save at quality 90.\<close>

definition plain_branch :: "image_env \<Rightarrow> string \<Rightarrow> image_outcome" where
  "plain_branch env fmt =
     (if \<not> output_writable env then image_failed SaveError [WritePlain fmt 90] []
      else \<lparr>result = (True, None), saves = [WritePlain fmt 90], warnings = [],
            written_quality = None, output_bytes = Some (plain_bytes env fmt)\<rparr>)"

text \<open>
  \<^verbatim>\<open>resize_image(input_file, output_file, target_size_kb, dimensions, output_format,
  max_iterations)\<close>. \<^verbatim>\<open>if target_size_kb:\<close> is false for \<^verbatim>\<open>None\<close> and for 0.
\<close>

definition resize_image :: "image_env \<Rightarrow> int option \<Rightarrow> string \<Rightarrow> int \<Rightarrow> image_outcome" where
  "resize_image env target_size_kb fmt max_iterations =
     (if \<not> input_readable env then image_failed FileError [] []
      else case target_size_kb of
        None \<Rightarrow> plain_branch env fmt
      | Some kb \<Rightarrow>
          if kb = 0 then plain_branch env fmt
          else let target_bytes = kb * 1024 in
            if upper fmt = ''PNG'' then png_branch env target_bytes
            else jpeg_branch env target_bytes max_iterations)"

text \<open>
  \<^verbatim>\<open>compress_image\<close>: PNG when transparency is kept, JPEG otherwise, with the
  default \<^verbatim>\<open>max_iterations = 10\<close>.
\<close>

definition compress_image :: "image_env \<Rightarrow> int \<Rightarrow> bool \<Rightarrow> image_outcome" where
  "compress_image env target_size_kb preserve_transparency =
     resize_image env (Some target_size_kb)
       (if preserve_transparency then ''PNG'' else ''JPEG'') 10"

section \<open>Chunk coverage\<close>

lemma range_step_Nil: "step = 0 \<or> stop \<le> i \<Longrightarrow> range_step i stop step = []"
  by (subst range_step.simps) simp

lemma range_step_Cons:
  "0 < step \<Longrightarrow> i < stop \<Longrightarrow> range_step i stop step = i # range_step (i + step) stop step"
  by (subst range_step.simps) simp

lemma concat_range_step:
  "0 < csize \<Longrightarrow>
   concat (map (\<lambda>i. [i ..< min (i + csize) page_count]) (range_step i page_count csize))
     = [i ..< page_count]"
proof (induction i page_count csize rule: range_step.induct)
  case (1 i stop step)
  show ?case
  proof (cases "stop \<le> i")
    case True
    then show ?thesis by (simp add: range_step_Nil)
  next
    case False
    then have lt: "i < stop" by simp
    have ih:
      "concat (map (\<lambda>j. [j ..< min (j + step) stop]) (range_step (i + step) stop step))
         = [i + step ..< stop]"
      using "1.IH" "1.prems" False by simp
    show ?thesis
    proof (cases "i + step \<le> stop")
      case True
      then have "[i ..< stop] = [i ..< i + step] @ [i + step ..< stop]"
        using upt_add_eq_append [of i "i + step" "stop - (i + step)"] by simp
      with True ih show ?thesis
        by (simp add: range_step_Cons [OF "1.prems" lt] min_def)
    next
      case f: False
      then have "range_step (i + step) stop step = []"
        by (simp add: range_step_Nil)
      with f show ?thesis
        by (simp add: range_step_Cons [OF "1.prems" lt] min_def)
    qed
  qed
qed

section \<open>Closed form of the chunk starts\<close>

lemma nchunks_step:
  assumes "0 < step" "i < stop"
  shows "(stop - i + step - 1) div step = Suc ((stop - (i + step) + step - 1) div step)"
proof (cases "i + step \<le> stop")
  case True
  then have "stop - i + step - 1 = (stop - (i + step) + step - 1) + step"
    using assms by arith
  then have "(stop - i + step - 1) div step = ((stop - (i + step) + step - 1) + step) div step"
    by (rule arg_cong)
  also have "\<dots> = Suc ((stop - (i + step) + step - 1) div step)"
    using assms by (simp only: div_add_self2)
  finally show ?thesis .
next
  case False
  with assms have a: "stop - (i + step) + step - 1 = step - 1" by arith
  from False assms have b: "stop - i + step - 1 = (stop - i - 1) + step" by arith
  from False assms have c: "stop - i - 1 < step" by arith
  from assms have d: "step - 1 < step" by arith
  have "(stop - i + step - 1) div step = ((stop - i - 1) + step) div step"
    using b by (rule arg_cong)
  also have "\<dots> = (stop - i - 1) div step + 1"
    using assms by (simp only: div_add_self2)
  also have "\<dots> = Suc 0"
    by (simp only: div_less [OF c])
  also have "\<dots> = Suc ((stop - (i + step) + step - 1) div step)"
    by (simp only: a div_less [OF d])
  finally show ?thesis .
qed

lemma range_step_eq:
  "0 < step \<Longrightarrow>
   range_step i stop step = map (\<lambda>k. i + k * step) [0 ..< (stop - i + step - 1) div step]"
proof (induction i stop step rule: range_step.induct)
  case (1 i stop step)
  show ?case
  proof (cases "stop \<le> i")
    case True
    with "1.prems" have "(stop - i + step - 1) div step = 0" by simp
    with True show ?thesis by (simp add: range_step_Nil)
  next
    case False
    then have lt: "i < stop" by simp
    let ?n = "(stop - (i + step) + step - 1) div step"
    have ih: "range_step (i + step) stop step = map (\<lambda>k. i + step + k * step) [0 ..< ?n]"
      using "1.IH" "1.prems" False by simp
    have "map (\<lambda>k. i + k * step) [0 ..< Suc ?n]
        = (i + 0 * step) # map (\<lambda>k. i + k * step) [Suc 0 ..< Suc ?n]"
      by (simp only: upt_conv_Cons [OF zero_less_Suc] list.map)
    also have "map (\<lambda>k. i + k * step) [Suc 0 ..< Suc ?n]
        = map (\<lambda>k. i + step + k * step) [0 ..< ?n]"
      by (simp only: map_Suc_upt [symmetric] map_map comp_def) (simp add: ac_simps)
    finally have m: "map (\<lambda>k. i + k * step) [0 ..< Suc ?n]
        = i # map (\<lambda>k. i + step + k * step) [0 ..< ?n]" by simp
    have n: "(stop - i + step - 1) div step = Suc ?n"
      by (rule nchunks_step [OF "1.prems" lt])
    have "range_step i stop step = i # range_step (i + step) stop step"
      by (rule range_step_Cons [OF "1.prems" lt])
    also have "\<dots> = i # map (\<lambda>k. i + step + k * step) [0 ..< ?n]"
      by (simp only: ih)
    also have "\<dots> = map (\<lambda>k. i + k * step) [0 ..< Suc ?n]"
      by (simp only: m)
    finally show ?thesis by (simp only: n)
  qed
qed

text \<open>
  C7. For every page count and every positive chunk size the chunks are built without
  error, and the concatenation of their index lists is exactly 0, 1, ..., page_count - 1:
  every page index occurs once, in order, with no gap and no duplicate.
\<close>

theorem chunks_cover_pages_once:
  "0 < csize \<Longrightarrow>
   \<exists>chunks. build_chunks pdf dir fmt d page_count csize = Inr chunks
      \<and> concat (map page_indices chunks) = [0 ..< page_count]
      \<and> distinct (concat (map page_indices chunks))"
proof -
  assume pos: "0 < csize"
  let ?cs = "map (\<lambda>i. \<lparr>input_pdf = pdf, output_dir = dir, output_format = fmt, dpi = d,
                page_indices = [i ..< min (i + csize) page_count]\<rparr>)
               (range_step 0 page_count csize)"
  have b: "build_chunks pdf dir fmt d page_count csize = Inr ?cs"
    using pos by (simp add: build_chunks_def py_range_def)
  have "map page_indices ?cs
      = map (\<lambda>i. [i ..< min (i + csize) page_count]) (range_step 0 page_count csize)"
    by (simp add: comp_def)
  then have c: "concat (map page_indices ?cs) = [0 ..< page_count]"
    using concat_range_step [OF pos, of page_count 0] by (simp add: comp_def)
  from b c show ?thesis by simp
qed

theorem chunks_cover_pages_once_witness:
  "(0::nat) < 3 \<and>
   (\<exists>chunks. build_chunks ''in.pdf'' ''out'' ''PNG'' 300 7 3 = Inr chunks
      \<and> concat (map page_indices chunks) = [0 ..< 7]
      \<and> distinct (concat (map page_indices chunks)))"
  using chunks_cover_pages_once [of 3 "''in.pdf''" "''out''" "''PNG''" 300 7] by simp

section \<open>Shape of the chunk partition\<close>

lemma below_nchunks: "0 < cs \<Longrightarrow> (k < (pc + cs - 1) div cs) = (k * cs < pc)" for cs :: nat
proof -
  assume pos: "0 < cs"
  have "(k < (pc + cs - 1) div cs) = (Suc k \<le> (pc + cs - 1) div cs)" by auto
  also have "\<dots> = (Suc k * cs \<le> pc + cs - 1)"
    by (rule less_eq_div_iff_mult_less_eq [OF pos])
  also have "\<dots> = (k * cs < pc)" using pos by (simp add: algebra_simps) arith
  finally show ?thesis .
qed


lemma build_chunks_closed:
  assumes pos: "0 < cs"
  shows "build_chunks pdf dir fmt d pc cs =
     Inr (map (\<lambda>k. \<lparr>input_pdf = pdf, output_dir = dir, output_format = fmt, dpi = d,
                      page_indices = [k * cs ..< min (k * cs + cs) pc]\<rparr>)
              [0 ..< (pc + cs - 1) div cs])"
  using pos by (simp add: build_chunks_def py_range_def range_step_eq [OF pos] comp_def)

lemma chunk_size_pos: "0 < chunk_size page_count cpu_count"
  by (simp add: chunk_size_def)

lemma num_cores_pos: "0 < num_cores cpu_count"
  by (simp add: num_cores_def split: option.splits)

lemma nchunks_dvd:
  fixes nc :: nat
  assumes "0 < nc" "0 < pc" "nc dvd pc"
  shows "(pc + max 1 (pc div nc) - 1) div max 1 (pc div nc) = nc"
proof -
  from assms obtain q where q: "pc = nc * q" by (auto elim: dvdE)
  with assms have qpos: "0 < q" by (cases q) auto
  from assms have dq: "nc * q div nc = q" by simp
  from qpos have mq: "max 1 q = q" by simp
  have "(nc * q + q - 1) div q = (q * nc + (q - 1)) div q"
    using qpos by (simp add: mult.commute)
  also have "\<dots> = nc + (q - 1) div q"
    using qpos by (simp only: div_mult_self4)
  also have "\<dots> = nc" using qpos by simp
  finally show ?thesis unfolding q dq mq .
qed

text \<open>
  C6 as stated fails. With 11 pages on 4 cores the chunk size is \<open>max 1 (11 div 4) = 2\<close>
  and the loop builds six chunks, not four; the remainder page 10 forms a chunk of its own
  instead of being absorbed by the chunk before it.
\<close>

theorem chunk_partition_counterexample:
  "map_sum id (map page_indices)
       (pdf_to_images_chunks ''in.pdf'' ''out'' ''PNG'' 300 (Some 4) 11)
     = Inr [[0, 1], [2, 3], [4, 5], [6, 7], [8, 9], [10]]
   \<and> map_sum id length (pdf_to_images_chunks ''in.pdf'' ''out'' ''PNG'' 300 (Some 4) 11)
     \<noteq> Inr (num_cores (Some 4))"
  by (simp add: pdf_to_images_chunks_def build_chunks_def py_range_def chunk_size_def
      num_cores_def range_step_Cons range_step_Nil)

text \<open>
  C6 amended. For every page count of at least 1 the interval \<open>[0, page_count)\<close> is cut
  into contiguous chunks of \<open>chunk_size = max 1 (page_count div num_cores)\<close> indices:
  chunk \<open>k\<close> holds the indices from \<open>k * chunk_size\<close> up to (excluding)
  \<open>min (k * chunk_size + chunk_size) page_count\<close>. There are
  \<open>(page_count + chunk_size - 1) div chunk_size\<close> chunks; every chunk but the last holds
  exactly \<open>chunk_size\<close> indices and the last holds between 1 and \<open>chunk_size\<close>. The number
  of chunks equals the core count when the core count divides the page count.
\<close>

theorem chunk_partition_shape:
  assumes pc: "1 \<le> page_count"
  shows "\<exists>chunks. pdf_to_images_chunks pdf dir fmt d cpu_count page_count = Inr chunks
     \<and> length chunks = (page_count + chunk_size page_count cpu_count - 1)
                          div chunk_size page_count cpu_count
     \<and> (\<forall>k < length chunks. page_indices (chunks ! k) =
            [k * chunk_size page_count cpu_count
               ..< min (k * chunk_size page_count cpu_count + chunk_size page_count cpu_count)
                       page_count])
     \<and> (\<forall>k. Suc k < length chunks \<longrightarrow>
            length (page_indices (chunks ! k)) = chunk_size page_count cpu_count)
     \<and> 1 \<le> length (page_indices (last chunks))
     \<and> length (page_indices (last chunks)) \<le> chunk_size page_count cpu_count
     \<and> (num_cores cpu_count dvd page_count \<longrightarrow> length chunks = num_cores cpu_count)"
proof -
  let ?cs = "chunk_size page_count cpu_count"
  let ?n = "(page_count + ?cs - 1) div ?cs"
  let ?g = "\<lambda>k. \<lparr>input_pdf = pdf, output_dir = dir, output_format = fmt, dpi = d,
                 page_indices = [k * ?cs ..< min (k * ?cs + ?cs) page_count]\<rparr>"
  let ?chunks = "map ?g [0 ..< ?n]"
  have pos: "0 < ?cs" by (rule chunk_size_pos)
  have b: "pdf_to_images_chunks pdf dir fmt d cpu_count page_count = Inr ?chunks"
    unfolding pdf_to_images_chunks_def by (rule build_chunks_closed [OF pos])
  have len: "length ?chunks = ?n" by simp
  have nth: "page_indices (?chunks ! k) = [k * ?cs ..< min (k * ?cs + ?cs) page_count]"
    if "k < ?n" for k using that by simp
  have npos: "0 < ?n"
    using below_nchunks [OF pos, of 0 page_count] pc by simp
  have full: "length (page_indices (?chunks ! k)) = ?cs" if "Suc k < ?n" for k
  proof -
    from that have "Suc k * ?cs < page_count" by (simp only: below_nchunks [OF pos])
    then have "k * ?cs + ?cs \<le> page_count" by simp
    moreover from that have "k < ?n" by simp
    ultimately show ?thesis by (simp add: nth min_def)
  qed
  have lastc: "page_indices (last ?chunks) = [(?n - 1) * ?cs ..< min ((?n - 1) * ?cs + ?cs) page_count]"
  proof -
    from npos have ne: "?chunks \<noteq> []" by simp
    from npos have "?n - 1 < ?n" by simp
    then show ?thesis
      by (simp only: last_conv_nth [OF ne] len nth)
  qed
  have l1: "1 \<le> length (page_indices (last ?chunks))"
  proof -
    from npos have "?n - 1 < ?n" by simp
    then have "(?n - 1) * ?cs < page_count" by (simp only: below_nchunks [OF pos])
    with pos show ?thesis by (simp only: lastc length_upt)
  qed
  have l2: "length (page_indices (last ?chunks)) \<le> ?cs"
    by (simp only: lastc length_upt)
  have dv: "length ?chunks = num_cores cpu_count" if "num_cores cpu_count dvd page_count"
    using nchunks_dvd [OF num_cores_pos _ that] pc by (simp add: chunk_size_def)
  show ?thesis
  proof (rule exI [of _ ?chunks], intro conjI allI impI)
    show "pdf_to_images_chunks pdf dir fmt d cpu_count page_count = Inr ?chunks" by (rule b)
    show "length ?chunks = ?n" by (rule len)
    show "1 \<le> length (page_indices (last ?chunks))" by (rule l1)
    show "length (page_indices (last ?chunks)) \<le> ?cs" by (rule l2)
  next
    fix k assume "k < length ?chunks"
    then have "k < ?n" by (simp only: len)
    then show "page_indices (?chunks ! k) = [k * ?cs ..< min (k * ?cs + ?cs) page_count]"
      by (rule nth)
  next
    fix k assume "Suc k < length ?chunks"
    then have "Suc k < ?n" by (simp only: len)
    then show "length (page_indices (?chunks ! k)) = ?cs" by (rule full)
  next
    assume "num_cores cpu_count dvd page_count"
    then show "length ?chunks = num_cores cpu_count" by (rule dv)
  qed
qed

theorem chunk_partition_shape_witness:
  "(1::nat) \<le> 11 \<and>
   (\<exists>chunks. pdf_to_images_chunks ''in.pdf'' ''out'' ''PNG'' 300 (Some 4) 11 = Inr chunks
     \<and> length chunks = (11 + chunk_size 11 (Some 4) - 1) div chunk_size 11 (Some 4)
     \<and> (\<forall>k < length chunks. page_indices (chunks ! k) =
            [k * chunk_size 11 (Some 4)
               ..< min (k * chunk_size 11 (Some 4) + chunk_size 11 (Some 4)) 11])
     \<and> (\<forall>k. Suc k < length chunks \<longrightarrow>
            length (page_indices (chunks ! k)) = chunk_size 11 (Some 4))
     \<and> 1 \<le> length (page_indices (last chunks))
     \<and> length (page_indices (last chunks)) \<le> chunk_size 11 (Some 4)
     \<and> (num_cores (Some 4) dvd 11 \<longrightarrow> length chunks = num_cores (Some 4)))"
proof -
  have h: "(1::nat) \<le> 11" by simp
  show ?thesis by (rule conjI [OF h chunk_partition_shape [OF h]])
qed


end
